theory Spec2Isabelle
  imports Main "HOL-Library.Sublist"
begin

section \<open>Characters and the string primitives of the Python runtime\<close>

text \<open>
  The scripts work on Python \<open>str\<close> values.  A \<open>str\<close> is modelled as a \<open>string\<close>
  (a list of \<open>char\<close>), each \<open>char\<close> standing for the Unicode code point of the same
  number, so the model covers every \<open>str\<close> whose code points lie below 256 (ASCII and
  the Latin-1 supplement).  The character classes below are the ones CPython uses on
  that range: \<open>str.isspace\<close>, \<open>str.strip\<close>, \<open>str.split\<close> and the regular-expression
  class \<open>\s\<close> share one notion of whitespace, \<open>\w\<close> is "alphanumeric or underscore",
  \<open>\d\<close> is the decimal digits, and \<open>.\<close> is every character but the line feed.
\<close>

definition code_point :: "char \<Rightarrow> nat" where
  "code_point c = of_char c"

definition newline :: char where
  "newline = CHR 0x0A"

definition is_space :: "char \<Rightarrow> bool" where
  "is_space c = (let n = code_point c in
     (9 \<le> n \<and> n \<le> 13) \<or> (28 \<le> n \<and> n \<le> 32) \<or> n = 133 \<or> n = 160)"

definition is_digit :: "char \<Rightarrow> bool" where
  "is_digit c = (let n = code_point c in 48 \<le> n \<and> n \<le> 57)"

definition is_word :: "char \<Rightarrow> bool" where
  "is_word c = (let n = code_point c in
     (48 \<le> n \<and> n \<le> 57) \<or> (65 \<le> n \<and> n \<le> 90) \<or> n = 95 \<or> (97 \<le> n \<and> n \<le> 122) \<or>
     n = 170 \<or> n = 178 \<or> n = 179 \<or> n = 181 \<or> n = 185 \<or> n = 186 \<or>
     (188 \<le> n \<and> n \<le> 190) \<or> (192 \<le> n \<and> n \<le> 214) \<or> (216 \<le> n \<and> n \<le> 246) \<or>
     (248 \<le> n \<and> n \<le> 255))"

definition lower_char :: "char \<Rightarrow> char" where
  "lower_char c = (let n = code_point c in
     if (65 \<le> n \<and> n \<le> 90) \<or> (192 \<le> n \<and> n \<le> 214) \<or> (216 \<le> n \<and> n \<le> 222)
     then char_of (n + 32) else c)"

text \<open>\<open>s.lower()\<close>\<close>

definition lower :: "string \<Rightarrow> string" where
  "lower s = map lower_char s"

text \<open>\<open>s.strip()\<close>: whitespace is removed at both ends.\<close>

definition lstrip :: "string \<Rightarrow> string" where
  "lstrip s = dropWhile is_space s"

definition rstrip :: "string \<Rightarrow> string" where
  "rstrip s = rev (dropWhile is_space (rev s))"

definition strip :: "string \<Rightarrow> string" where
  "strip s = rstrip (lstrip s)"

text \<open>\<open>s.rstrip('\n')\<close>: only line feeds are removed, and only at the end.\<close>

definition rstrip_newline :: "string \<Rightarrow> string" where
  "rstrip_newline s = rev (dropWhile (\<lambda>c. c = newline) (rev s))"

text \<open>\<open>sep.join(xs)\<close>\<close>

fun join :: "string \<Rightarrow> string list \<Rightarrow> string" where
  "join sep [] = []"
| "join sep [x] = x"
| "join sep (x # y # ys) = x @ sep @ join sep (y # ys)"

text \<open>
  \<open>s.split()\<close> without an argument: the maximal runs of non-whitespace characters, in
  order; no empty string is ever produced.
\<close>

function split_whitespace :: "string \<Rightarrow> string list" where
  "split_whitespace [] = []"
| "split_whitespace (c # cs) =
     (if is_space c then split_whitespace cs
      else (c # takeWhile (\<lambda>x. \<not> is_space x) cs)
           # split_whitespace (dropWhile (\<lambda>x. \<not> is_space x) cs))"
  by pat_completeness auto
termination
  by (relation "measure length") (auto simp: less_Suc_eq_le length_dropWhile_le)

text \<open>
  The first occurrence of a separator.  \<open>find_first sep s\<close> is \<open>None\<close> when \<open>sep\<close> does
  not occur in \<open>s\<close> (Python: \<open>sep not in s\<close>), and otherwise the text before and the text
  after the leftmost occurrence: the two elements of \<open>s.split(sep, 1)\<close>, the first of
  which is also \<open>s.split(sep)[0]\<close>.
\<close>

fun find_first :: "string \<Rightarrow> string \<Rightarrow> (string \<times> string) option" where
  "find_first sep [] = (if sep = [] then Some ([], []) else None)"
| "find_first sep (c # cs) =
     (if prefix sep (c # cs) then Some ([], drop (length sep) (c # cs))
      else (case find_first sep cs of
              None \<Rightarrow> None
            | Some (front, back) \<Rightarrow> Some (c # front, back)))"

text \<open>
  \<open>os.path.splitext(p)[0]\<close> (POSIX flavour): the path without its extension.  The
  extension starts at the last dot of the last path component, unless that component
  consists of dots only up to there (leading dots never start an extension).  \<open>rfind\<close>
  is \<open>str.rfind\<close>: the index of the last occurrence, or \<open>-1\<close>.
\<close>

definition rfind :: "char \<Rightarrow> string \<Rightarrow> int" where
  "rfind c s = (case dropWhile (\<lambda>x. x \<noteq> c) (rev s) of
                  [] \<Rightarrow> - 1
                | _ # r \<Rightarrow> int (length r))"

definition splitext_root :: "string \<Rightarrow> string" where
  "splitext_root p =
     (let sepIndex = rfind (CHR ''/'') p;
          dotIndex = rfind (CHR ''.'') p
      in if dotIndex > sepIndex \<and>
            list_ex (\<lambda>i. p ! i \<noteq> CHR ''.'') [nat (sepIndex + 1) ..< nat dotIndex]
         then take (nat dotIndex) p
         else p)"

text \<open>\<open>name.replace('._', '')\<close>: every occurrence is deleted, scanning from the left.\<close>

fun replace_hidden :: "string \<Rightarrow> string" where
  "replace_hidden (a # b # cs) =
     (if a = CHR ''.'' \<and> b = CHR ''_'' then replace_hidden cs
      else a # replace_hidden (b # cs))"
| "replace_hidden cs = cs"

section \<open>The regular expressions of the scripts\<close>

text \<open>
  Each \<open>re.sub\<close> and \<open>re.match\<close> call of the source is one function here, written as
  the scan the regular-expression engine performs: leftmost match first, greedy
  repetition, the search resumed behind each replaced match.
\<close>

text \<open>\<open>re.sub(r'[^\w\s]', ' ', s)\<close>\<close>

definition sub_special :: "string \<Rightarrow> string" where
  "sub_special s = map (\<lambda>c. if is_word c \<or> is_space c then c else CHR '' '') s"

text \<open>\<open>re.sub(r'\s+', ' ', s)\<close>\<close>

function sub_spaces :: "string \<Rightarrow> string" where
  "sub_spaces [] = []"
| "sub_spaces (c # cs) =
     (if is_space c then CHR '' '' # sub_spaces (dropWhile is_space cs)
      else c # sub_spaces cs)"
  by pat_completeness auto
termination
  by (relation "measure length") (auto simp: less_Suc_eq_le length_dropWhile_le)

text \<open>
  \<open>\b\<close>: a word boundary lies between two positions exactly one of which holds a word
  character; the edge of the string (\<open>None\<close>) counts as a non-word character.
\<close>

definition is_word_opt :: "char option \<Rightarrow> bool" where
  "is_word_opt x = (case x of None \<Rightarrow> False | Some c \<Rightarrow> is_word c)"

definition word_boundary :: "char option \<Rightarrow> char option \<Rightarrow> bool" where
  "word_boundary prev next = (is_word_opt prev \<noteq> is_word_opt next)"

definition head_opt :: "string \<Rightarrow> char option" where
  "head_opt s = (case s of [] \<Rightarrow> None | c # _ \<Rightarrow> Some c)"

text \<open>
  \<open>.*$\<close>: the greedy \<open>.*\<close> runs up to the next line feed or to the end of the string,
  and \<open>$\<close> (no MULTILINE flag) holds at the end of the string and just before a line
  feed that is the last character.  \<open>dot_star_rest s\<close> is what \<open>.*\<close> leaves unread.
\<close>

definition dot_star_rest :: "string \<Rightarrow> string" where
  "dot_star_rest s = dropWhile (\<lambda>c. c \<noteq> newline) s"

definition at_dollar :: "string \<Rightarrow> bool" where
  "at_dollar s = (s = [] \<or> s = [newline])"

text \<open>
  \<open>re.sub(r'\b(feat|featuring|ft|feat\.|featuring\.)\b.*$', '', s)\<close>.
  \<open>feat_match_at prev s\<close> says that the pattern matches at the position whose
  preceding character is \<open>prev\<close> and whose remaining text is \<open>s\<close>.  A match runs to
  the end of the line, so behind it only \<open>dot_star_rest s\<close> (empty, or one final line
  feed) is left, where the pattern cannot match again.
\<close>

definition feat_alternatives :: "string list" where
  "feat_alternatives = [''feat'', ''featuring'', ''ft'', ''feat.'', ''featuring.'']"

definition feat_match_at :: "char option \<Rightarrow> string \<Rightarrow> bool" where
  "feat_match_at prev s =
     (word_boundary prev (head_opt s) \<and>
      list_ex (\<lambda>a. prefix a s \<and>
                   word_boundary (Some (last a)) (head_opt (drop (length a) s)) \<and>
                   at_dollar (dot_star_rest (drop (length a) s)))
              feat_alternatives)"

fun sub_feat_from :: "char option \<Rightarrow> string \<Rightarrow> string" where
  "sub_feat_from prev [] = []"
| "sub_feat_from prev (c # cs) =
     (if feat_match_at prev (c # cs) then dot_star_rest (c # cs)
      else c # sub_feat_from (Some c) cs)"

definition sub_feat :: "string \<Rightarrow> string" where
  "sub_feat s = sub_feat_from None s"

text \<open>
  \<open>re.sub(r'^\d+[-.]?\d*\s*', '', s)\<close>: anchored at the start of the string, so at
  most one match; every part behind the first digits is optional and greedy.
\<close>

definition sub_track_prefix :: "string \<Rightarrow> string" where
  "sub_track_prefix s =
     (if takeWhile is_digit s = [] then s
      else (let r = dropWhile is_digit s;
                r1 = (case r of
                        [] \<Rightarrow> []
                      | c # cs \<Rightarrow> if c = CHR ''-'' \<or> c = CHR ''.'' then cs else c # cs);
                r2 = dropWhile is_digit r1
            in dropWhile is_space r2))"

text \<open>
  \<open>re.sub(r'\([^)]*\)', '', s)\<close> and \<open>re.sub(r'\[[^\]]*\]', '', s)\<close>: from an opening
  bracket to the next closing one; an opening bracket with no closing one behind it is
  left in place.
\<close>

function sub_bracketed :: "char \<Rightarrow> char \<Rightarrow> string \<Rightarrow> string" where
  "sub_bracketed l r [] = []"
| "sub_bracketed l r (c # cs) =
     (if c = l \<and> r \<in> set cs
      then sub_bracketed l r (tl (dropWhile (\<lambda>x. x \<noteq> r) cs))
      else c # sub_bracketed l r cs)"
  by pat_completeness auto
termination
  by (relation "measure (\<lambda>(l, r, s). length s)")
     (auto simp: less_Suc_eq_le intro: le_trans [OF diff_le_self length_dropWhile_le])


section \<open>music\_manager.py\<close>

definition clean_filename :: "string \<Rightarrow> string" where
  "clean_filename filename =
     (let name = splitext_root filename;
          name = replace_hidden name;
          name = sub_track_prefix name;
          name = sub_bracketed (CHR ''('') (CHR '')'') name;
          name = sub_bracketed (CHR ''['') (CHR '']'') name;
          name = sub_special name;
          name = sub_spaces name
      in strip name)"

definition normalize_title :: "string \<Rightarrow> string" where
  "normalize_title title =
     (let title = lower title;
          title = sub_special title;
          title = strip (sub_spaces title);
          title = sub_feat title
      in title)"

text \<open>
  \<open>remove_duplicates_from_file\<close>: the loop over the lines of the input file, with its
  two variables \<open>seen\<close> and \<open>unique_lines\<close> as the state.  Reading and writing the
  files is outside the model; the function returns \<open>unique_lines\<close>.
\<close>

definition remove_duplicates_step :: "string \<Rightarrow> string set \<times> string list \<Rightarrow> string set \<times> string list" where
  "remove_duplicates_step line st =
     (case st of (seen, unique_lines) \<Rightarrow>
        (let line = rstrip_newline line;
             normalized_line = normalize_title line
         in if normalized_line \<notin> seen
            then (insert normalized_line seen, unique_lines @ [line])
            else (seen, unique_lines)))"

definition remove_duplicates_from_file :: "string list \<Rightarrow> string list" where
  "remove_duplicates_from_file lines = snd (fold remove_duplicates_step lines ({}, []))"



section \<open>add\_unmatched\_songs.py\<close>

definition parse_song_line :: "string \<Rightarrow> string \<times> string" where
  "parse_song_line line =
     (case find_first '' by '' line of
        None \<Rightarrow> (line, [])
      | Some (title, artists) \<Rightarrow> (strip title, strip artists))"


definition clean_for_search :: "string \<Rightarrow> string" where
  "clean_for_search text =
     (let text = lower text;
          text = sub_feat text;
          text = sub_special text;
          text = strip (sub_spaces text)
      in text)"

definition articles :: "string set" where
  "articles = {''the'', ''a'', ''an''}"

definition generate_search_queries :: "string \<Rightarrow> string \<Rightarrow> string list" where
  "generate_search_queries title artists =
     (let clean_title = clean_for_search title;
          clean_artists = clean_for_search artists;
          queries = [clean_title @ '' '' @ clean_artists, clean_title];
          queries = (case find_first '' _ '' clean_artists of
                       None \<Rightarrow> queries
                     | Some (first_artist, _) \<Rightarrow> queries @ [clean_title @ '' '' @ first_artist]);
          title_words = split_whitespace clean_title;
          queries = (if length title_words > 2
                     then (let filtered_words = filter (\<lambda>w. w \<notin> articles) title_words
                           in if filtered_words \<noteq> []
                              then queries @ [join '' '' filtered_words @ '' '' @ clean_artists]
                              else queries)
                     else queries)
      in queries)"

section \<open>The normalised key as the specification words it\<close>

text \<open>
  The specification describes one pipeline for a normalised key: lowercase, strip the
  text from a featuring marker (\<open>feat\<close>, \<open>featuring\<close>, \<open>ft\<close>, as a whole word, with or
  without a trailing period) onward, replace every character that is neither a word
  character nor whitespace with a space, collapse runs of whitespace, trim.  The
  definition below follows these words, not either of the two source functions.
\<close>

definition marker_words :: "string list" where
  "marker_words = [''feat'', ''featuring'', ''ft'']"

definition marker_at :: "char option \<Rightarrow> string \<Rightarrow> bool" where
  "marker_at prev s =
     (word_boundary prev (head_opt s) \<and>
      list_ex (\<lambda>m. prefix m s \<and> word_boundary (Some (last m)) (head_opt (drop (length m) s)))
              marker_words)"

fun truncate_at_marker :: "char option \<Rightarrow> string \<Rightarrow> string" where
  "truncate_at_marker prev [] = []"
| "truncate_at_marker prev (c # cs) =
     (if marker_at prev (c # cs) then [] else c # truncate_at_marker (Some c) cs)"

definition normalized_key :: "string \<Rightarrow> string" where
  "normalized_key text =
     strip (sub_spaces (sub_special (truncate_at_marker None (lower text))))"

section \<open>Words of a string\<close>

text \<open>
  The maximal runs of word characters of a string, in order.  The proofs below describe
  the cleaned strings through them.
\<close>

function word_tokens :: "string \<Rightarrow> string list" where
  "word_tokens [] = []"
| "word_tokens (c # cs) =
     (if is_word c then (c # takeWhile is_word cs) # word_tokens (dropWhile is_word cs)
      else word_tokens cs)"
  by pat_completeness auto
termination
  by (relation "measure length") (auto simp: less_Suc_eq_le length_dropWhile_le)

definition word_string :: "string \<Rightarrow> bool" where
  "word_string w = (w \<noteq> [] \<and> list_all is_word w)"

text \<open>
  The words of the normalised key of a string: the words of its lowercase form in front
  of the first featuring marker.
\<close>

definition key_words :: "string \<Rightarrow> string list" where
  "key_words x = takeWhile (\<lambda>w. w \<notin> set marker_words) (word_tokens (lower x))"

section \<open>Properties of the string primitives\<close>

subsection \<open>Character classes\<close>

lemma code_point_less: "code_point c < 256"
  by (simp add: code_point_def)

lemma code_point_lower_char:
  "code_point (lower_char c) =
     (let n = code_point c in
      if (65 \<le> n \<and> n \<le> 90) \<or> (192 \<le> n \<and> n \<le> 214) \<or> (216 \<le> n \<and> n \<le> 222) then n + 32 else n)"
  using code_point_less [of c]
  by (simp add: lower_char_def code_point_def Let_def)

lemma lower_char_idem: "lower_char (lower_char c) = lower_char c"
proof -
  define d where "d = lower_char c"
  have "\<not> ((65 \<le> code_point d \<and> code_point d \<le> 90) \<or>
            (192 \<le> code_point d \<and> code_point d \<le> 214) \<or>
            (216 \<le> code_point d \<and> code_point d \<le> 222))"
    unfolding d_def code_point_lower_char Let_def by auto
  then have "lower_char d = d"
    unfolding lower_char_def Let_def by (simp only: if_False)
  then show ?thesis by (simp add: d_def)
qed

lemma code_point_inject: "code_point a = code_point b \<Longrightarrow> a = b"
  by (simp add: code_point_def)

lemma code_point_newline: "code_point newline = 10"
  by (simp add: code_point_def newline_def)

lemma lower_char_newline: "lower_char c = newline \<longleftrightarrow> c = newline"
proof
  assume "lower_char c = newline"
  then have "code_point (lower_char c) = 10" by (simp add: code_point_newline)
  then have "code_point c = 10"
    unfolding code_point_lower_char Let_def by (auto split: if_splits)
  then show "c = newline" by (simp add: code_point_inject code_point_newline)
next
  assume "c = newline"
  then show "lower_char c = newline"
    by (simp add: lower_char_def Let_def code_point_newline)
qed

lemma not_word_and_space: "is_word c \<Longrightarrow> \<not> is_space c"
  by (auto simp: is_word_def is_space_def Let_def)


lemma space_char [simp]: "is_space (CHR '' '')" "\<not> is_word (CHR '' '')"
  by (simp_all add: is_space_def is_word_def code_point_def)

lemma newline_space: "is_space newline" "\<not> is_word newline"
  by (simp_all add: is_space_def is_word_def code_point_newline)

subsection \<open>Word strings\<close>

lemma word_stringI: "w \<noteq> [] \<Longrightarrow> \<forall>c\<in>set w. is_word c \<Longrightarrow> word_string w"
  by (simp add: word_string_def list_all_iff)

lemma word_stringD: "word_string w \<Longrightarrow> w \<noteq> [] \<and> (\<forall>c\<in>set w. is_word c)"
  by (simp add: word_string_def list_all_iff)

subsection \<open>join\<close>

lemma join_Cons: "join sep (w # ws) = (if ws = [] then w else w @ sep @ join sep ws)"
  by (cases ws) simp_all

lemma join_eq_Nil: "\<forall>w\<in>set ws. w \<noteq> [] \<Longrightarrow> join sep ws = [] \<longleftrightarrow> ws = []"
  by (cases ws) (simp_all add: join_Cons)

lemma set_join: "set (join sep ws) \<subseteq> set sep \<union> \<Union> (set ` set ws)"
  by (induction sep ws rule: join.induct) auto

subsection \<open>strip\<close>

lemma rstrip_append:
  "rstrip (a @ b) = (if \<forall>c\<in>set b. is_space c then rstrip a else a @ rstrip b)"
  by (simp add: rstrip_def dropWhile_append)

lemma rstrip_eq_Nil: "rstrip s = [] \<longleftrightarrow> (\<forall>c\<in>set s. is_space c)"
  by (simp add: rstrip_def dropWhile_eq_Nil_conv)

lemma rstrip_Cons: "rstrip (c # s) = (if rstrip s = [] \<and> is_space c then [] else c # rstrip s)"
  using rstrip_append [of "[c]" s] by (auto simp: rstrip_eq_Nil rstrip_def)

lemma rstrip_word_string: "word_string w \<Longrightarrow> rstrip w = w"
proof -
  assume w: "word_string w"
  then have "\<not> is_space (last w)"
    using word_stringD [OF w] not_word_and_space by auto
  then have "dropWhile is_space (rev w) = rev w"
    using word_stringD [OF w] by (cases "rev w") (auto simp: last_rev [symmetric] simp del: last_rev)
  then show ?thesis by (simp add: rstrip_def)
qed

subsection \<open>word tokens\<close>

lemma takeWhile_word_string: "is_word c \<Longrightarrow> word_string (c # takeWhile is_word cs)"
  using set_takeWhileD [of _ is_word cs] by (auto simp: word_string_def list_all_iff)

lemma word_tokens_Cons_word:
  "is_word c \<Longrightarrow> word_tokens (c # cs) = (c # takeWhile is_word cs) # word_tokens (dropWhile is_word cs)"
  by simp

lemma word_tokens_Cons_nonword: "\<not> is_word c \<Longrightarrow> word_tokens (c # cs) = word_tokens cs"
  by simp

lemma word_tokens_word_string: "w \<in> set (word_tokens s) \<Longrightarrow> word_string w"
proof (induction s rule: word_tokens.induct)
  case 1
  then show ?case by simp
next
  case (2 c cs)
  show ?case
  proof (cases "is_word c")
    case True
    from 2(3) have "w = c # takeWhile is_word cs \<or> w \<in> set (word_tokens (dropWhile is_word cs))"
      by (simp only: word_tokens_Cons_word [OF True] set_ConsD)
    then show ?thesis
      using takeWhile_word_string [OF True] 2(1) [OF True] by blast
  next
    case False
    from 2(3) have "w \<in> set (word_tokens cs)"
      by (simp only: word_tokens_Cons_nonword [OF False])
    then show ?thesis using 2(2) [OF False] by blast
  qed
qed

lemma word_tokens_chars: "w \<in> set (word_tokens s) \<Longrightarrow> set w \<subseteq> set s"
proof (induction s rule: word_tokens.induct)
  case 1
  then show ?case by simp
next
  case (2 c cs)
  show ?case
  proof (cases "is_word c")
    case True
    from 2(3) have "w = c # takeWhile is_word cs \<or> w \<in> set (word_tokens (dropWhile is_word cs))"
      by (simp only: word_tokens_Cons_word [OF True] set_ConsD)
    then show ?thesis
    proof
      assume "w = c # takeWhile is_word cs"
      then show ?thesis using set_takeWhileD [of _ is_word cs] by auto
    next
      assume "w \<in> set (word_tokens (dropWhile is_word cs))"
      then have "set w \<subseteq> set (dropWhile is_word cs)" by (rule 2(1) [OF True])
      then show ?thesis using set_dropWhileD [of _ is_word cs] by auto
    qed
  next
    case False
    from 2(3) have "w \<in> set (word_tokens cs)"
      by (simp only: word_tokens_Cons_nonword [OF False])
    then show ?thesis using 2(2) [OF False] by auto
  qed
qed

lemma head_nonword_cases: "head_opt Y = None \<longleftrightarrow> Y = []"
  by (cases Y) (simp_all add: head_opt_def)

lemma takeWhile_word_append:
  "\<forall>c\<in>set u. is_word c \<Longrightarrow> \<not> is_word_opt (head_opt Y) \<Longrightarrow> takeWhile is_word (u @ Y) = u"
  by (cases Y) (simp_all add: head_opt_def is_word_opt_def takeWhile_append2)

lemma dropWhile_word_append:
  "\<forall>c\<in>set u. is_word c \<Longrightarrow> \<not> is_word_opt (head_opt Y) \<Longrightarrow> dropWhile is_word (u @ Y) = Y"
  by (cases Y) (simp_all add: head_opt_def is_word_opt_def dropWhile_append2)

lemma word_tokens_append:
  assumes "word_string w" "\<not> is_word_opt (head_opt Y)"
  shows "word_tokens (w @ Y) = w # word_tokens Y"
proof -
  from assms(1) obtain c u where w: "w = c # u" and c: "is_word c" and u: "\<forall>x\<in>set u. is_word x"
    by (cases w) (auto simp: word_string_def list_all_iff)
  show ?thesis
    using c by (simp add: w takeWhile_word_append [OF u assms(2)] dropWhile_word_append [OF u assms(2)])
qed

lemma word_tokens_join:
  "\<forall>w\<in>set ws. word_string w \<Longrightarrow> word_tokens (join '' '' ws) = ws"
proof (induction "'' ''" ws rule: join.induct)
  case 1
  then show ?case by simp
next
  case (2 x)
  then show ?case
    using word_tokens_append [of x "[]"] by (simp add: head_opt_def is_word_opt_def)
next
  case (3 x y ys)
  have "word_tokens (x @ CHR '' '' # join '' '' (y # ys)) = x # word_tokens (CHR '' '' # join '' '' (y # ys))"
    using 3(2) by (intro word_tokens_append) (simp_all add: head_opt_def is_word_opt_def)
  with 3 show ?case by simp
qed

subsection \<open>The punctuation and whitespace substitutions\<close>

lemma dropWhile_space_sub_special:
  "dropWhile is_space (sub_special cs) = sub_special (dropWhile (\<lambda>x. \<not> is_word x) cs)"
  by (induction cs) (auto simp: sub_special_def not_word_and_space)

lemma squeeze_Cons_word:
  "is_word c \<Longrightarrow> sub_spaces (sub_special (c # cs)) = c # sub_spaces (sub_special cs)"
  by (simp add: sub_special_def not_word_and_space)

lemma squeeze_Cons_nonword:
  "\<not> is_word c \<Longrightarrow> sub_spaces (sub_special (c # cs)) =
     CHR '' '' # sub_spaces (sub_special (dropWhile (\<lambda>x. \<not> is_word x) cs))"
  using dropWhile_space_sub_special [of cs]
  by (simp add: sub_special_def)

lemma squeeze_word_append:
  "\<forall>c\<in>set u. is_word c \<Longrightarrow> sub_spaces (sub_special (u @ r)) = u @ sub_spaces (sub_special r)"
proof (induction u)
  case Nil
  then show ?case by simp
next
  case (Cons a u)
  then show ?case using squeeze_Cons_word [of a "u @ r"] by simp
qed

lemma lstrip_squeeze_word_start:
  "s = [] \<or> is_word (hd s) \<Longrightarrow> lstrip (sub_spaces (sub_special s)) = sub_spaces (sub_special s)"
  by (cases s) (simp_all add: squeeze_Cons_word lstrip_def not_word_and_space, simp add: sub_special_def)

lemma dropWhile_nonword_start:
  "dropWhile (\<lambda>x. \<not> is_word x) s = [] \<or> is_word (hd (dropWhile (\<lambda>x. \<not> is_word x) s))"
  using hd_dropWhile [of "\<lambda>x. \<not> is_word x" s] by auto

lemma lstrip_squeeze:
  "lstrip (sub_spaces (sub_special s)) = sub_spaces (sub_special (dropWhile (\<lambda>x. \<not> is_word x) s))"
proof (cases s)
  case Nil
  then show ?thesis by (simp add: lstrip_def sub_special_def)
next
  case (Cons c cs)
  show ?thesis
  proof (cases "is_word c")
    case True
    then show ?thesis
      using lstrip_squeeze_word_start [of "c # cs"] by (simp add: Cons)
  next
    case False
    have "lstrip (sub_spaces (sub_special (c # cs))) =
          lstrip (sub_spaces (sub_special (dropWhile (\<lambda>x. \<not> is_word x) cs)))"
      by (simp only: squeeze_Cons_nonword [OF False]) (simp add: lstrip_def)
    also have "\<dots> = sub_spaces (sub_special (dropWhile (\<lambda>x. \<not> is_word x) cs))"
      by (rule lstrip_squeeze_word_start [OF dropWhile_nonword_start])
    finally show ?thesis using False by (simp add: Cons)
  qed
qed

lemma rstrip_squeeze:
  "rstrip (sub_spaces (sub_special (dropWhile (\<lambda>x. \<not> is_word x) s))) = join '' '' (word_tokens s)"
proof (induction s rule: word_tokens.induct)
  case 1
  then show ?case by (simp add: sub_special_def rstrip_def)
next
  case (2 c cs)
  show ?case
  proof (cases "is_word c")
    case False
    with 2 show ?thesis by simp
  next
    case True
    define w where "w = c # takeWhile is_word cs"
    define rest where "rest = dropWhile is_word cs"
    define X where "X = sub_spaces (sub_special (dropWhile (\<lambda>x. \<not> is_word x) rest))"
    have w: "word_string w" "\<forall>x\<in>set w. is_word x"
      using True by (auto simp: w_def word_string_def list_all_iff dest: set_takeWhileD)
    have split: "c # cs = w @ rest" by (simp add: w_def rest_def)
    have IH: "rstrip X = join '' '' (word_tokens rest)"
      using 2(1) [OF True] by (simp add: X_def rest_def)
    have toks: "word_tokens (c # cs) = w # word_tokens rest"
      using True by (simp add: w_def rest_def)
    have ne: "\<forall>t\<in>set (word_tokens rest). t \<noteq> []"
      using word_tokens_word_string word_stringD by blast
    have sq: "sub_spaces (sub_special (c # cs)) = w @ sub_spaces (sub_special rest)"
      unfolding split by (rule squeeze_word_append [OF w(2)])
    show ?thesis
    proof (cases rest)
      case Nil
      then show ?thesis
        using True sq toks rstrip_word_string [OF w(1)] by (simp add: sub_special_def)
    next
      case (Cons r rs)
      then have r: "\<not> is_word r"
        using hd_dropWhile [of is_word cs] by (auto simp: rest_def)
      have "sub_spaces (sub_special rest) = CHR '' '' # X"
        using r by (simp add: Cons squeeze_Cons_nonword X_def)
      then have "rstrip (sub_spaces (sub_special (c # cs))) = rstrip (w @ CHR '' '' # X)"
        using sq by simp
      also have "\<dots> = (if rstrip X = [] then w else w @ CHR '' '' # rstrip X)"
        using rstrip_word_string [OF w(1)]
        by (simp add: rstrip_append rstrip_Cons rstrip_eq_Nil)
      also have "\<dots> = join '' '' (w # word_tokens rest)"
        by (simp add: IH join_Cons join_eq_Nil [OF ne])
      finally show ?thesis using True toks by simp
    qed
  qed
qed

lemma strip_squeeze: "strip (sub_spaces (sub_special s)) = join '' '' (word_tokens s)"
  by (simp add: strip_def lstrip_squeeze rstrip_squeeze)

subsection \<open>Featuring markers\<close>

lemma marker_letters [simp]:
  "is_word (CHR ''f'')" "is_word (CHR ''e'')" "is_word (CHR ''a'')" "is_word (CHR ''t'')"
  "is_word (CHR ''u'')" "is_word (CHR ''r'')" "is_word (CHR ''i'')" "is_word (CHR ''n'')"
  "is_word (CHR ''g'')" "\<not> is_word (CHR ''.'')"
  by (simp_all add: is_word_def code_point_def)

lemma marker_word_string: "m \<in> set marker_words \<Longrightarrow> word_string m"
  by (auto simp: marker_words_def word_string_def)

lemma word_boundary_after_word:
  "is_word c \<Longrightarrow> word_boundary (Some c) x \<longleftrightarrow> \<not> is_word_opt x"
  by (simp add: word_boundary_def is_word_opt_def)

lemma word_boundary_before_word:
  "is_word c \<Longrightarrow> word_boundary p (Some c) \<longleftrightarrow> \<not> is_word_opt p"
  by (auto simp: word_boundary_def is_word_opt_def)

lemma head_opt_simps [simp]: "head_opt [] = None" "head_opt (c # cs) = Some c"
  by (simp_all add: head_opt_def)

lemma is_word_opt_simps [simp]: "is_word_opt None = False" "is_word_opt (Some c) = is_word c"
  by (simp_all add: is_word_opt_def)

lemma marker_at_nonword: "\<not> is_word c \<Longrightarrow> \<not> marker_at prev (c # cs)"
  by (auto simp: marker_at_def marker_words_def)

lemma marker_at_midword: "is_word_opt prev \<Longrightarrow> is_word c \<Longrightarrow> \<not> marker_at prev (c # cs)"
  by (simp add: marker_at_def word_boundary_def)

lemma takeWhile_word_prefix:
  assumes "prefix m s" "\<forall>c\<in>set m. is_word c" "\<not> is_word_opt (head_opt (drop (length m) s))"
  shows "takeWhile is_word s = m"
proof -
  from assms(1) obtain r where s: "s = m @ r" by (auto simp: prefix_def)
  with assms(3) have "\<not> is_word_opt (head_opt r)" by simp
  then show ?thesis unfolding s by (rule takeWhile_word_append [OF assms(2)])
qed

lemma marker_at_token:
  assumes prev: "\<not> is_word_opt prev" and w: "word_string w" and rest: "\<not> is_word_opt (head_opt rest)"
  shows "marker_at prev (w @ rest) \<longleftrightarrow> w \<in> set marker_words"
proof -
  from w obtain c u where wc: "w = c # u" and c: "is_word c" and allw: "\<forall>x\<in>set w. is_word x"
    by (cases w) (auto simp: word_string_def list_all_iff)
  have last_w: "is_word (last w)" using allw wc by (metis last_in_set list.distinct(1))
  have tw: "takeWhile is_word (w @ rest) = w"
    by (rule takeWhile_word_append [OF allw rest])
  have start: "word_boundary prev (head_opt (w @ rest))"
    using prev c by (simp add: wc word_boundary_before_word)
  show ?thesis
  proof
    assume "marker_at prev (w @ rest)"
    then obtain m where m: "m \<in> set marker_words" "prefix m (w @ rest)"
        "word_boundary (Some (last m)) (head_opt (drop (length m) (w @ rest)))"
      by (auto simp: marker_at_def list_ex_iff)
    have mw: "\<forall>x\<in>set m. is_word x" "m \<noteq> []"
      using word_stringD [OF marker_word_string [OF m(1)]] by auto
    then have "is_word (last m)" by (metis last_in_set)
    with m(3) have "\<not> is_word_opt (head_opt (drop (length m) (w @ rest)))"
      by (simp add: word_boundary_after_word)
    from takeWhile_word_prefix [OF m(2) mw(1) this] tw have "m = w" by simp
    with m(1) show "w \<in> set marker_words" by simp
  next
    assume "w \<in> set marker_words"
    moreover have "prefix w (w @ rest)" by simp
    moreover have "word_boundary (Some (last w)) (head_opt (drop (length w) (w @ rest)))"
      using last_w rest by (simp add: word_boundary_after_word)
    ultimately have "\<exists>m\<in>set marker_words. prefix m (w @ rest) \<and>
        word_boundary (Some (last m)) (head_opt (drop (length m) (w @ rest)))"
      by (intro bexI [of _ w] conjI)
    then show "marker_at prev (w @ rest)"
      using start by (simp only: marker_at_def list_ex_iff simp_thms)
  qed
qed

lemma truncate_word_run:
  "is_word p \<Longrightarrow> \<forall>c\<in>set u. is_word c \<Longrightarrow>
     truncate_at_marker (Some p) (u @ rest) = u @ truncate_at_marker (Some (last (p # u))) rest"
proof (induction u arbitrary: p)
  case Nil
  then show ?case by simp
next
  case (Cons a u)
  then have "\<not> marker_at (Some p) (a # u @ rest)"
    by (intro marker_at_midword) simp_all
  moreover have "truncate_at_marker (Some a) (u @ rest) = u @ truncate_at_marker (Some (last (a # u))) rest"
    using Cons by simp
  ultimately show ?case by simp
qed

lemma truncate_token:
  assumes prev: "\<not> is_word_opt prev" and w: "word_string w" and rest: "\<not> is_word_opt (head_opt rest)"
  shows "truncate_at_marker prev (w @ rest) =
           (if w \<in> set marker_words then [] else w @ truncate_at_marker (Some (last w)) rest)"
proof -
  from w obtain c u where wc: "w = c # u" and c: "is_word c" and u: "\<forall>x\<in>set u. is_word x"
    by (cases w) (auto simp: word_string_def list_all_iff)
  have m: "marker_at prev (c # u @ rest) \<longleftrightarrow> w \<in> set marker_words"
    using marker_at_token [OF prev w rest] by (simp add: wc)
  show ?thesis
  proof (cases "w \<in> set marker_words")
    case True
    with m show ?thesis by (simp add: wc)
  next
    case False
    with m have "truncate_at_marker prev (c # u @ rest) = c # truncate_at_marker (Some c) (u @ rest)"
      by simp
    also have "\<dots> = c # u @ truncate_at_marker (Some (last (c # u))) rest"
      using truncate_word_run [OF c u] by simp
    finally show ?thesis using False by (simp add: wc)
  qed
qed

lemma truncate_nonword:
  "\<not> is_word c \<Longrightarrow> truncate_at_marker prev (c # cs) = c # truncate_at_marker (Some c) cs"
  by (simp add: marker_at_nonword)

lemma head_truncate_nonword:
  "\<not> is_word_opt (head_opt s) \<Longrightarrow> \<not> is_word_opt (head_opt (truncate_at_marker prev s))"
  by (cases s) (simp_all add: marker_at_nonword)

lemma head_dropWhile_word: "\<not> is_word_opt (head_opt (dropWhile is_word cs))"
  by (induction cs) simp_all

lemma word_tokens_truncate:
  "\<not> (is_word_opt prev \<and> is_word_opt (head_opt s)) \<Longrightarrow>
     word_tokens (truncate_at_marker prev s) = takeWhile (\<lambda>w. w \<notin> set marker_words) (word_tokens s)"
proof (induction s arbitrary: prev rule: word_tokens.induct)
  case 1
  then show ?case by simp
next
  case (2 c cs)
  show ?case
  proof (cases "is_word c")
    case False
    have "word_tokens (truncate_at_marker prev (c # cs)) = word_tokens (truncate_at_marker (Some c) cs)"
      by (simp only: truncate_nonword [OF False] word_tokens_Cons_nonword [OF False])
    also have "\<dots> = takeWhile (\<lambda>w. w \<notin> set marker_words) (word_tokens cs)"
      using False by (intro 2(2)) simp_all
    finally show ?thesis by (simp only: word_tokens_Cons_nonword [OF False])
  next
    case True
    define w where "w = c # takeWhile is_word cs"
    define rest where "rest = dropWhile is_word cs"
    have w: "word_string w" unfolding w_def by (rule takeWhile_word_string [OF True])
    have split: "c # cs = w @ rest" by (simp add: w_def rest_def)
    have rest: "\<not> is_word_opt (head_opt rest)"
      unfolding rest_def by (rule head_dropWhile_word)
    have prev: "\<not> is_word_opt prev" using 2(3) True by simp
    have toks: "word_tokens (c # cs) = w # word_tokens rest"
      using True by (simp add: w_def rest_def)
    have last_w: "is_word (last w)"
      using word_stringD [OF w] by (metis last_in_set)
    show ?thesis
    proof (cases "w \<in> set marker_words")
      case True
      then show ?thesis
        unfolding split truncate_token [OF prev w rest] using toks split by simp
    next
      case False
      have IH: "word_tokens (truncate_at_marker (Some (last w)) rest) =
                  takeWhile (\<lambda>w. w \<notin> set marker_words) (word_tokens rest)"
        using rest 2(1) [OF True, of "Some (last w)"] by (simp add: rest_def)
      have "word_tokens (w @ truncate_at_marker (Some (last w)) rest) =
              w # word_tokens (truncate_at_marker (Some (last w)) rest)"
        by (rule word_tokens_append [OF w head_truncate_nonword [OF rest]])
      then show ?thesis
        unfolding split truncate_token [OF prev w rest] using False toks split IH by simp
    qed
  qed
qed

subsection \<open>The source pattern on text without line feeds\<close>

lemma dot_star_rest_no_newline: "newline \<notin> set s \<Longrightarrow> dot_star_rest s = []"
  by (simp add: dot_star_rest_def dropWhile_eq_Nil_conv) metis

lemma feat_match_at_no_newline:
  assumes "newline \<notin> set s"
  shows "feat_match_at prev s = marker_at prev s"
proof -
  have nl: "\<And>n. at_dollar (dot_star_rest (drop n s))"
    using assms dot_star_rest_no_newline [of "drop n s" for n] in_set_dropD [of newline _ s]
    by (auto simp: at_dollar_def)
  have dotted: "prefix (m @ ''.'') s \<Longrightarrow> m \<noteq> [] \<Longrightarrow> is_word (last m) \<Longrightarrow>
                  prefix m s \<and> word_boundary (Some (last m)) (head_opt (drop (length m) s))" for m
    by (auto simp: prefix_def word_boundary_after_word)
  have "list_ex (\<lambda>a. prefix a s \<and> word_boundary (Some (last a)) (head_opt (drop (length a) s)))
          feat_alternatives
        = list_ex (\<lambda>m. prefix m s \<and> word_boundary (Some (last m)) (head_opt (drop (length m) s)))
          marker_words"
    using dotted [of "''feat''"] dotted [of "''featuring''"]
    by (auto simp: feat_alternatives_def marker_words_def)
  then show ?thesis
    by (simp add: feat_match_at_def marker_at_def nl)
qed

lemma sub_feat_from_no_newline:
  "newline \<notin> set s \<Longrightarrow> sub_feat_from prev s = truncate_at_marker prev s"
proof (induction s arbitrary: prev)
  case Nil
  then show ?case by simp
next
  case (Cons c cs)
  have "feat_match_at prev (c # cs) = marker_at prev (c # cs)"
    by (rule feat_match_at_no_newline [OF Cons.prems])
  moreover have "dot_star_rest (c # cs) = []"
    by (rule dot_star_rest_no_newline [OF Cons.prems])
  moreover have "sub_feat_from (Some c) cs = truncate_at_marker (Some c) cs"
    using Cons by simp
  ultimately show ?case by simp
qed

subsection \<open>Single-spaced word strings\<close>

lemma join_chars:
  "\<forall>w\<in>set ws. word_string w \<Longrightarrow> c \<in> set (join '' '' ws) \<Longrightarrow> c = CHR '' '' \<or> is_word c"
  using set_join [of "'' ''" ws] word_stringD by fastforce

lemma join_no_newline: "\<forall>w\<in>set ws. word_string w \<Longrightarrow> newline \<notin> set (join '' '' ws)"
  using join_chars [of ws newline] newline_space by (auto simp: newline_def)

lemma join_word_ends:
  "\<forall>w\<in>set ws. word_string w \<Longrightarrow> ws \<noteq> [] \<Longrightarrow>
     join '' '' ws \<noteq> [] \<and> is_word (hd (join '' '' ws)) \<and> is_word (last (join '' '' ws))"
proof (induction "'' ''" ws rule: join.induct)
  case 1
  then show ?case by simp
next
  case (2 x)
  then have "x \<noteq> []" "\<forall>c\<in>set x. is_word c" using word_stringD [of x] by auto
  then show ?case by (simp add: hd_in_set)
next
  case (3 x y ys)
  then have x: "x \<noteq> []" "\<forall>c\<in>set x. is_word c" using word_stringD [of x] by auto
  from 3 have "join '' '' (y # ys) \<noteq> [] \<and> is_word (last (join '' '' (y # ys)))" by simp
  then show ?case using x by (simp add: hd_in_set)
qed

lemma lstrip_word_start: "s = [] \<or> is_word (hd s) \<Longrightarrow> lstrip s = s"
  by (cases s) (auto simp: lstrip_def not_word_and_space)

lemma rstrip_word_end: "s = [] \<or> is_word (last s) \<Longrightarrow> rstrip s = s"
proof (cases "rev s")
  case Nil
  then show ?thesis by (simp add: rstrip_def)
next
  case (Cons a r)
  assume "s = [] \<or> is_word (last s)"
  with Cons have "is_word a" by (metis last_rev list.sel(1) rev.simps(1) rev_rev_ident list.distinct(1))
  then have "dropWhile is_space (rev s) = rev s" using Cons by (simp add: not_word_and_space)
  then show ?thesis by (simp add: rstrip_def)
qed

lemma strip_join:
  assumes "\<forall>w\<in>set ws. word_string w"
  shows "strip (join '' '' ws) = join '' '' ws"
proof (cases "ws = []")
  case True
  then show ?thesis by (simp add: strip_def lstrip_def rstrip_def)
next
  case False
  from join_word_ends [OF assms False] show ?thesis
    by (simp add: strip_def lstrip_word_start rstrip_word_end)
qed

subsection \<open>Cutting a single-spaced word string at the first marker\<close>

lemma truncate_join:
  "\<forall>w\<in>set ws. word_string w \<Longrightarrow> \<not> is_word_opt prev \<Longrightarrow>
     truncate_at_marker prev (join '' '' ws) =
       (let pre = takeWhile (\<lambda>w. w \<notin> set marker_words) ws
        in if pre = ws then join '' '' ws
           else if pre = [] then [] else join '' '' pre @ '' '')"
proof (induction ws arbitrary: prev)
  case Nil
  then show ?case by simp
next
  case (Cons w ws)
  have w: "word_string w" using Cons.prems by simp
  have good: "\<forall>w\<in>set ws. word_string w" using Cons.prems by simp
  define rest where "rest = (if ws = [] then [] else CHR '' '' # join '' '' ws)"
  have j: "join '' '' (w # ws) = w @ rest" by (simp add: join_Cons rest_def)
  have rest: "\<not> is_word_opt (head_opt rest)" by (simp add: rest_def)
  note tok = truncate_token [OF Cons.prems(2) w rest]
  show ?case
  proof (cases "w \<in> set marker_words")
    case True
    then show ?thesis unfolding j tok by simp
  next
    case False
    show ?thesis
    proof (cases "ws = []")
      case True
      with False show ?thesis unfolding j tok by (simp add: rest_def)
    next
      case ne: False
      have "truncate_at_marker (Some (last w)) rest
              = CHR '' '' # truncate_at_marker (Some (CHR '' '')) (join '' '' ws)"
        using ne by (simp add: rest_def marker_at_nonword)
      also have "truncate_at_marker (Some (CHR '' '')) (join '' '' ws) =
          (let pre = takeWhile (\<lambda>w. w \<notin> set marker_words) ws
           in if pre = ws then join '' '' ws
              else if pre = [] then [] else join '' '' pre @ '' '')"
        by (rule Cons.IH [OF good]) simp
      finally show ?thesis
        unfolding j tok using False ne by (auto simp: Let_def join_Cons rest_def)
    qed
  qed
qed

subsection \<open>The search normalisation in terms of words\<close>

lemma key_words_good: "\<forall>w\<in>set (key_words x). word_string w"
  using word_tokens_word_string set_takeWhileD [of _ _ "word_tokens (lower x)"]
  by (auto simp: key_words_def)

lemma lower_no_newline:
  assumes "newline \<notin> set x"
  shows "newline \<notin> set (lower x)"
proof
  assume "newline \<in> set (lower x)"
  then obtain c where c: "c \<in> set x" "lower_char c = newline"
    by (auto simp: lower_def)
  from c(2) have "c = newline" by (simp only: lower_char_newline)
  with c(1) assms show False by simp
qed

lemma clean_for_search_words:
  "newline \<notin> set x \<Longrightarrow> clean_for_search x = join '' '' (key_words x)"
  using sub_feat_from_no_newline [OF lower_no_newline, of x None]
  by (simp add: clean_for_search_def sub_feat_def strip_squeeze word_tokens_truncate key_words_def)

lemma lower_key_words: "lower (join '' '' (key_words x)) = join '' '' (key_words x)"
proof -
  have "lower_char c = c" if "c \<in> set (join '' '' (key_words x))" for c
  proof -
    from that set_join [of "'' ''" "key_words x"]
    consider "c = CHR '' ''" | w where "w \<in> set (key_words x)" "c \<in> set w" by auto
    then show ?thesis
    proof cases
      case 1
      then show ?thesis by (simp add: lower_char_def code_point_def)
    next
      case 2
      then have "w \<in> set (word_tokens (lower x))"
        using set_takeWhileD [of w _ "word_tokens (lower x)"] by (simp add: key_words_def)
      with 2 word_tokens_chars have "c \<in> set (lower x)" by blast
      then show ?thesis by (auto simp: lower_def lower_char_idem)
    qed
  qed
  then show ?thesis by (simp add: lower_def map_idI)
qed

lemma key_words_join: "key_words (join '' '' (key_words x)) = key_words x"
proof -
  have "word_tokens (join '' '' (key_words x)) = key_words x"
    by (rule word_tokens_join [OF key_words_good])
  then show ?thesis
    unfolding key_words_def [of "join '' '' (key_words x)"] lower_key_words
    by (simp add: key_words_def)
qed

subsection \<open>The placeholder pattern\<close>








subsection \<open>The first occurrence of a separator\<close>

lemma find_first_Some_split: "find_first sep s = Some (b, a) \<Longrightarrow> s = b @ sep @ a"
proof (induction s arbitrary: b)
  case Nil
  then show ?case by (simp split: if_splits)
next
  case (Cons c cs)
  show ?case
  proof (cases "prefix sep (c # cs)")
    case True
    with Cons.prems show ?thesis by (auto simp: prefix_def)
  next
    case False
    with Cons.prems obtain b' where "find_first sep cs = Some (b', a)" "b = c # b'"
      by (auto split: option.splits)
    with Cons.IH show ?thesis by simp
  qed
qed

lemma find_first_Some_least:
  "find_first sep s = Some (b, a) \<Longrightarrow> s = b' @ sep @ a' \<Longrightarrow> length b \<le> length b'"
proof (induction s arbitrary: b b')
  case Nil
  then show ?case by (simp split: if_splits)
next
  case (Cons c cs)
  show ?case
  proof (cases "prefix sep (c # cs)")
    case True
    with Cons.prems(1) have "b = []" by simp
    then show ?thesis by simp
  next
    case False
    with Cons.prems(1) obtain b0 where b0: "find_first sep cs = Some (b0, a)" "b = c # b0"
      by (auto split: option.splits)
    from False Cons.prems(2) have "b' \<noteq> []" by (auto simp: prefix_def)
    with Cons.prems(2) obtain b1 where b1: "b' = c # b1" "cs = b1 @ sep @ a'"
      by (cases b') auto
    from Cons.IH [OF b0(1) b1(2)] show ?thesis by (simp add: b0 b1)
  qed
qed

lemma find_first_None_absent: "find_first sep s = None \<Longrightarrow> s \<noteq> b @ sep @ a"
proof (induction s arbitrary: b)
  case Nil
  then show ?case by (simp split: if_splits)
next
  case (Cons c cs)
  then have np: "\<not> prefix sep (c # cs)" and rec: "find_first sep cs = None"
    by (auto split: if_splits option.splits)
  show ?case
  proof
    assume eq: "c # cs = b @ sep @ a"
    with np have "b \<noteq> []" by (auto simp: prefix_def)
    with eq obtain b1 where "b = c # b1" "cs = b1 @ sep @ a" by (cases b) auto
    with Cons.IH [OF rec] show False by blast
  qed
qed

subsection \<open>The query list\<close>

lemma generate_search_queries_parts:
  "generate_search_queries title artists =
     [clean_for_search title @ '' '' @ clean_for_search artists, clean_for_search title]
     @ (case find_first '' _ '' (clean_for_search artists) of
          None \<Rightarrow> []
        | Some (first_artist, _) \<Rightarrow> [clean_for_search title @ '' '' @ first_artist])
     @ (if length (split_whitespace (clean_for_search title)) > 2 \<and>
           filter (\<lambda>w. w \<notin> articles) (split_whitespace (clean_for_search title)) \<noteq> []
        then [join '' '' (filter (\<lambda>w. w \<notin> articles) (split_whitespace (clean_for_search title)))
              @ '' '' @ clean_for_search artists]
        else [])"
  by (simp add: generate_search_queries_def Let_def split: option.splits)


subsection \<open>The two reconciliation loops\<close>

lemma first_occurrences_snoc:
  "map (\<lambda>i. g ((xs @ [x]) ! i))
       (filter (\<lambda>i. k ((xs @ [x]) ! i) \<notin> k ` set (take i (xs @ [x]))) [0..<length (xs @ [x])])
   = map (\<lambda>i. g (xs ! i)) (filter (\<lambda>i. k (xs ! i) \<notin> k ` set (take i xs)) [0..<length xs])
     @ (if k x \<notin> k ` set xs then [g x] else [])"
proof -
  have f: "filter (\<lambda>i. k ((xs @ [x]) ! i) \<notin> k ` set (take i (xs @ [x]))) [0..<length xs]
         = filter (\<lambda>i. k (xs ! i) \<notin> k ` set (take i xs)) [0..<length xs]"
    by (rule filter_cong) (auto simp: nth_append)
  have m: "map (\<lambda>i. g ((xs @ [x]) ! i)) (filter (\<lambda>i. k (xs ! i) \<notin> k ` set (take i xs)) [0..<length xs])
         = map (\<lambda>i. g (xs ! i)) (filter (\<lambda>i. k (xs ! i) \<notin> k ` set (take i xs)) [0..<length xs])"
    by (rule map_cong) (auto simp: nth_append)
  have l: "map (\<lambda>i. g ((xs @ [x]) ! i))
             (filter (\<lambda>i. k ((xs @ [x]) ! i) \<notin> k ` set (take i (xs @ [x]))) [length xs])
         = (if k x \<notin> k ` set xs then [g x] else [])"
    by simp
  have up: "[0..<length (xs @ [x])] = [0..<length xs] @ [length xs]"
    by simp
  show ?thesis by (simp only: up filter_append map_append f m l)
qed

lemma remove_duplicates_fold:
  "fold remove_duplicates_step lines ({}, []) =
     ((\<lambda>l. normalize_title (rstrip_newline l)) ` set lines,
      map (\<lambda>i. rstrip_newline (lines ! i))
          (filter (\<lambda>i. normalize_title (rstrip_newline (lines ! i))
                          \<notin> (\<lambda>l. normalize_title (rstrip_newline l)) ` set (take i lines))
                  [0..<length lines]))"
proof (induction lines rule: rev_induct)
  case Nil
  then show ?case by simp
next
  case (snoc x xs)
  have "fold remove_duplicates_step (xs @ [x]) ({}, [])
          = remove_duplicates_step x (fold remove_duplicates_step xs ({}, []))"
    by simp
  also note snoc.IH
  finally show ?case
    unfolding first_occurrences_snoc [of rstrip_newline xs x "\<lambda>l. normalize_title (rstrip_newline l)"]
    by (auto simp: remove_duplicates_step_def Let_def)
qed



subsection \<open>Single-spaced word strings are fixed by every cleaning step\<close>

lemma sub_special_join:
  assumes "\<forall>w\<in>set ws. word_string w"
  shows "sub_special (join '' '' ws) = join '' '' ws"
proof -
  have "(if is_word c \<or> is_space c then c else CHR '' '') = c" if "c \<in> set (join '' '' ws)" for c
    using join_chars [OF assms that] by auto
  then show ?thesis unfolding sub_special_def by (rule map_idI)
qed

lemma sub_spaces_word_append:
  "\<forall>c\<in>set u. is_word c \<Longrightarrow> sub_spaces (u @ r) = u @ sub_spaces r"
  by (induction u) (simp_all add: not_word_and_space)

lemma sub_spaces_join:
  "\<forall>w\<in>set ws. word_string w \<Longrightarrow> sub_spaces (join '' '' ws) = join '' '' ws"
proof (induction "'' ''" ws rule: join.induct)
  case 1
  then show ?case by simp
next
  case (2 x)
  then have "\<forall>c\<in>set x. is_word c" using word_stringD [of x] by simp
  from sub_spaces_word_append [OF this, of "[]"] show ?case by simp
next
  case (3 x y ys)
  then have x: "\<forall>c\<in>set x. is_word c" using word_stringD [of x] by simp
  have good: "\<forall>w\<in>set (y # ys). word_string w" using 3(2) by simp
  have "is_word (hd (join '' '' (y # ys)))" using join_word_ends [OF good] by simp
  then have "dropWhile is_space (join '' '' (y # ys)) = join '' '' (y # ys)"
    using lstrip_word_start [of "join '' '' (y # ys)"] by (simp add: lstrip_def)
  then have "sub_spaces (CHR '' '' # join '' '' (y # ys)) = CHR '' '' # join '' '' (y # ys)"
    using 3(1) [OF good] by simp
  then show ?case
    using sub_spaces_word_append [OF x, of "CHR '' '' # join '' '' (y # ys)"] by simp
qed

lemma sub_feat_key_words: "sub_feat (join '' '' (key_words x)) = join '' '' (key_words x)"
proof -
  have "takeWhile (\<lambda>w. w \<notin> set marker_words) (key_words x) = key_words x"
    by (simp add: key_words_def)
  then have "truncate_at_marker None (join '' '' (key_words x)) = join '' '' (key_words x)"
    using truncate_join [OF key_words_good, of None] by (simp add: Let_def)
  then show ?thesis
    unfolding sub_feat_def
    using sub_feat_from_no_newline [OF join_no_newline [OF key_words_good]] by simp
qed

section \<open>The claims\<close>

text \<open>
  C1.  \<open>normalize_title\<close> is claimed to be idempotent.  The function trims before it
  removes the featuring suffix, so the space in front of the marker is left at the end
  of the key: a second application trims it away and returns a different string, and
  the key of \<open>Song A feat. B\<close> differs from the key of \<open>Song A\<close>.
\<close>

theorem normalize_title_twice_differs:
  "normalize_title ''Song A feat. B'' = ''song a '' \<and>
   normalize_title (normalize_title ''Song A feat. B'') = ''song a'' \<and>
   normalize_title ''Song A'' = ''song a''"
  by code_simp

text \<open>
  C2.  \<open>normalize_title\<close> and \<open>clean_for_search\<close> are claimed to be the same function,
  both equal to the pipeline of the normalised key.  On a title with a featuring marker
  \<open>clean_for_search\<close> returns the normalised key, and \<open>normalize_title\<close> returns it with
  a space behind it: the same trailing space as in C1, left because \<open>normalize_title\<close>
  trims before it removes the featuring suffix.
\<close>

theorem normalize_title_clean_for_search_differ:
  "normalize_title ''Song A feat. B'' = ''song a '' \<and>
   clean_for_search ''Song A feat. B'' = ''song a'' \<and>
   normalized_key ''Song A feat. B'' = ''song a''"
  by code_simp




text \<open>
  C4.  The first query is claimed to be the cleaned title, a space, and the artist names
  cleaned one by one and joined by single spaces.  The function receives the artists as
  one string, the names joined by \<open>_\<close> between spaces, and cleans that string in one
  pass; the underscore is a word character and stays.  What holds: the first query is
  the cleaned title, a space and the cleaned artist string, which is the claimed query
  when there is a single artist name.
\<close>

theorem generate_search_queries_first_keeps_separator:
  "hd (generate_search_queries ''t'' (join '' _ '' [''a'', ''b'']))
     \<noteq> clean_for_search ''t'' @ '' '' @ join '' '' (map clean_for_search [''a'', ''b''])"
  by code_simp

theorem generate_search_queries_first:
  "hd (generate_search_queries title artists) = clean_for_search title @ '' '' @ clean_for_search artists \<and>
   hd (generate_search_queries title (join '' _ '' [artist]))
     = clean_for_search title @ '' '' @ join '' '' (map clean_for_search [artist])"
  by (simp add: generate_search_queries_parts)

text \<open>
  C5.  \<open>parse_song_line\<close> is claimed to return the trimmed line as the title when the
  delimiter is absent.  It returns the line as it is passed in; only the branch that
  finds the delimiter trims.  What holds: with the delimiter present, the line is split
  at its first occurrence and both parts are trimmed (so empty artist text behind the
  delimiter gives the empty artist text); with the delimiter absent, the title is the
  line unchanged and the artist text is empty.
\<close>

theorem parse_song_line_untrimmed_title:
  "find_first '' by '' ''  abc  '' = None \<and>
   fst (parse_song_line ''  abc  '') \<noteq> strip ''  abc  ''"
  by code_simp

theorem parse_song_line_first_delimiter:
  "(\<forall>b a. line = b @ '' by '' @ a \<and> (\<forall>b' a'. line = b' @ '' by '' @ a' \<longrightarrow> length b \<le> length b')
       \<longrightarrow> parse_song_line line = (strip b, strip a)) \<and>
   ((\<forall>b a. line \<noteq> b @ '' by '' @ a) \<longrightarrow> parse_song_line line = (line, []))"
proof (intro conjI allI impI)
  fix b a
  assume h: "line = b @ '' by '' @ a \<and> (\<forall>b' a'. line = b' @ '' by '' @ a' \<longrightarrow> length b \<le> length b')"
  then have eq: "line = b @ '' by '' @ a"
    and least: "\<And>b' a'. line = b' @ '' by '' @ a' \<Longrightarrow> length b \<le> length b'"
    by simp_all
  have "find_first '' by '' line \<noteq> None"
  proof
    assume "find_first '' by '' line = None"
    from find_first_None_absent [OF this, of b a] eq show False by simp
  qed
  then obtain b0 a0 where f: "find_first '' by '' line = Some (b0, a0)" by auto
  have s: "line = b0 @ '' by '' @ a0" by (rule find_first_Some_split [OF f])
  have "length b0 \<le> length b" by (rule find_first_Some_least [OF f eq])
  moreover have "length b \<le> length b0" by (rule least [OF s])
  ultimately have len: "length b0 = length b" by simp
  from eq s have "b0 @ ('' by '' @ a0) = b @ ('' by '' @ a)" by simp
  with len have "b0 = b \<and> '' by '' @ a0 = '' by '' @ a"
    using append_eq_append_conv [of b0 b "'' by '' @ a0" "'' by '' @ a"] by blast
  then have "b0 = b" "a0 = a" by simp_all
  then show "parse_song_line line = (strip b, strip a)"
    by (simp add: parse_song_line_def f)
next
  assume absent: "\<forall>b a. line \<noteq> b @ '' by '' @ a"
  have "find_first '' by '' line = None"
  proof (cases "find_first '' by '' line")
    case None
    then show ?thesis .
  next
    case (Some p)
    obtain b0 a0 where "p = (b0, a0)" by (cases p)
    with Some find_first_Some_split have "line = b0 @ '' by '' @ a0" by blast
    with absent show ?thesis by blast
  qed
  then show "parse_song_line line = (line, [])" by (simp add: parse_song_line_def)
qed

theorem parse_song_line_first_delimiter_witness:
  "parse_song_line ''Bohemian Rhapsody by Queen'' = (strip ''Bohemian Rhapsody'', strip ''Queen'') \<and>
   parse_song_line ''Intro'' = (''Intro'', [])"
proof -
  have f: "find_first '' by '' ''Bohemian Rhapsody by Queen'' = Some (''Bohemian Rhapsody'', ''Queen'')"
    by code_simp
  have eq: "''Bohemian Rhapsody by Queen'' = ''Bohemian Rhapsody'' @ '' by '' @ ''Queen''"
    by simp
  have least: "\<forall>b' a'. ''Bohemian Rhapsody by Queen'' = b' @ '' by '' @ a'
                 \<longrightarrow> length ''Bohemian Rhapsody'' \<le> length b'"
    using find_first_Some_least [OF f] by blast
  have g: "find_first '' by '' ''Intro'' = None"
    by code_simp
  have absent: "\<forall>b a. ''Intro'' \<noteq> b @ '' by '' @ a"
    using find_first_None_absent [OF g] by blast
  from parse_song_line_first_delimiter [of "''Bohemian Rhapsody by Queen''"] eq least
  have "parse_song_line ''Bohemian Rhapsody by Queen'' = (strip ''Bohemian Rhapsody'', strip ''Queen'')"
    by blast
  moreover from parse_song_line_first_delimiter [of "''Intro''"] absent
  have "parse_song_line ''Intro'' = (''Intro'', [])"
    by blast
  ultimately show ?thesis by simp
qed

text \<open>
  C6.  The loop of \<open>remove_duplicates_from_file\<close> keeps exactly the lines whose key
  (\<open>normalize_title\<close> of the line without its line feed) is not the key of an earlier
  line, in their order and with their own text.  Blank lines get no special treatment:
  the first one is kept like any other line, later ones have the same key.
\<close>

theorem remove_duplicates_first_occurrences:
  "remove_duplicates_from_file lines =
     map (\<lambda>i. rstrip_newline (lines ! i))
         (filter (\<lambda>i. normalize_title (rstrip_newline (lines ! i))
                         \<notin> (\<lambda>l. normalize_title (rstrip_newline l)) ` set (take i lines))
                 [0..<length lines]) \<and>
   remove_duplicates_from_file [''Song A by X'', ''song a by x'', ''Song B by Y'']
     = [''Song A by X'', ''Song B by Y''] \<and>
   remove_duplicates_from_file ['''', ''Song A'', ''  '', ''''] = ['''', ''Song A'']"
proof -
  have "remove_duplicates_from_file [''Song A by X'', ''song a by x'', ''Song B by Y'']
     = [''Song A by X'', ''Song B by Y'']" by code_simp
  moreover have "remove_duplicates_from_file ['''', ''Song A'', ''  '', ''''] = ['''', ''Song A'']"
    by code_simp
  ultimately show ?thesis
    by (simp add: remove_duplicates_from_file_def remove_duplicates_fold)
qed


text \<open>
  C8.  \<open>clean_filename\<close> is claimed to strip a hidden-file marker prefix.  The example of
  the specification evaluates as stated, but the marker \<open>._\<close> is deleted wherever it
  occurs in the name, not only in front: the period and the underscore in the middle of
  \<open>Mr._Jones\<close> disappear and the two words are fused.
\<close>

theorem clean_filename_hidden_marker_anywhere:
  "clean_filename ''03-Song Title (Live) [HD].mp3'' = ''Song Title'' \<and>
   clean_filename ''Mr._Jones.mp3'' = ''MrJones'' \<and>
   clean_filename ''Mr.-Jones.mp3'' = ''Mr Jones''"
  by code_simp


text \<open>
  C10.  \<open>clean_for_search\<close> is claimed to be idempotent on every string.  The pattern
  that removes the featuring suffix ends in \<open>.*$\<close>, which does not cross a line feed:
  with a line feed behind the marker the first pass keeps the marker, the whitespace
  step turns the line feed into a space, and the second pass removes the suffix.  On
  every string without a line feed the function is idempotent, and its output is left
  unchanged by each single step: lowercasing, the removal of the featuring suffix, the
  replacement of special characters, the collapsing of whitespace and trimming.
\<close>

theorem clean_for_search_twice_differs:
  "clean_for_search (clean_for_search (''a ft b'' @ [newline] @ ''c''))
     \<noteq> clean_for_search (''a ft b'' @ [newline] @ ''c'')"
  by code_simp

theorem clean_for_search_idempotent:
  assumes "newline \<notin> set x"
  shows "clean_for_search (clean_for_search x) = clean_for_search x \<and>
         lower (clean_for_search x) = clean_for_search x \<and>
         sub_feat (clean_for_search x) = clean_for_search x \<and>
         sub_special (clean_for_search x) = clean_for_search x \<and>
         sub_spaces (clean_for_search x) = clean_for_search x \<and>
         strip (clean_for_search x) = clean_for_search x"
proof -
  have c: "clean_for_search x = join '' '' (key_words x)"
    by (rule clean_for_search_words [OF assms])
  have "newline \<notin> set (join '' '' (key_words x))"
    by (rule join_no_newline [OF key_words_good])
  then have "clean_for_search (join '' '' (key_words x)) = join '' '' (key_words x)"
    by (simp add: clean_for_search_words key_words_join)
  then show ?thesis
    unfolding c
    using lower_key_words [of x] sub_feat_key_words [of x]
      sub_special_join [OF key_words_good] sub_spaces_join [OF key_words_good]
      strip_join [OF key_words_good]
    by simp
qed

theorem clean_for_search_idempotent_witness:
  "newline \<notin> set ''Song A feat. B'' \<and>
   clean_for_search (clean_for_search ''Song A feat. B'') = clean_for_search ''Song A feat. B''"
  using clean_for_search_idempotent [of "''Song A feat. B''"]
  by (simp add: newline_def)

end
